theory Spec2Isabelle
  imports Main "HOL-Library.Word"
begin

unbundle bit_operations_syntax

section \<open>Data model of the chat context\<close>

text \<open>
  The chat context provider of \<^verbatim>\<open>src/components/chat/ChatContext.tsx\<close> keeps the text of the
  input field, a loading flag and a backup of the submitted text, and drives one mutation
  (\<^verbatim>\<open>sendMessage\<close>) through the four callbacks \<^verbatim>\<open>onMutate\<close>, \<^verbatim>\<open>onSuccess\<close>, \<^verbatim>\<open>onError\<close> and
  \<^verbatim>\<open>onSettled\<close>. The callbacks read and write the query cache of \<^verbatim>\<open>getFileMessages\<close>.

  A JavaScript string that holds message text is modelled by the list of its Unicode code
  points; identifiers and time stamps are plain ASCII and are modelled by \<^typ>\<open>string\<close>.
  The reserved identifier of the in-progress reply is the literal \<^verbatim>\<open>"ai-response"\<close> of the source.
\<close>

type_synonym byte = "8 word"
type_synonym jstring = "nat list"

record chat_message =
  createdAt :: string
  msg_id :: string
  msg_text :: jstring
  isUserMessage :: bool

text \<open>
  A page is an object of the JavaScript heap: the source assigns to its \<^verbatim>\<open>messages\<close> field and
  compares pages by reference (\<^verbatim>\<open>page === old.pages[0]\<close>). Pages therefore live in an explicit
  store and a cache entry holds their addresses. The source names no field of a page other
  than \<^verbatim>\<open>messages\<close>; \<open>nextCursor\<close> stands for the remaining fields, which the spread
  \<^verbatim>\<open>{...page, messages}\<close> copies.
\<close>

record page =
  messages :: "chat_message list"
  nextCursor :: "string option"

type_synonym addr = nat

record heap =
  objects :: "addr \<Rightarrow> page"
  fresh :: addr

record entry =
  pages :: "addr list"
  pageParams :: "string list"

text \<open>
  The inputs under which the source addresses the cache: none at all
  (\<^verbatim>\<open>getInfiniteData()\<close>), \<^verbatim>\<open>{ fileId }\<close> (\<^verbatim>\<open>setData\<close>, \<^verbatim>\<open>invalidate\<close>) and
  \<^verbatim>\<open>{ fileId, limit }\<close> (\<^verbatim>\<open>setInfiniteData\<close>).
\<close>

datatype qinput = NoInput | FileInput string | FileLimitInput string nat

record toast =
  title :: string
  description :: string
  variant :: string

datatype error = TypeError | FetchRejected | SendFailed | ReadRejected

record config =
  fileId :: string
  INFINITE_QUERY_LIMIT :: nat

text \<open>
  The state the callbacks act on: the three pieces of component state, the two families of
  cache values (paginated entries written by \<^verbatim>\<open>setInfiniteData\<close>, plain values written by
  \<^verbatim>\<open>setData\<close>), the page store, and the log of the calls made to the collaborators
  (\<^verbatim>\<open>toast\<close>, \<^verbatim>\<open>cancel\<close>, \<^verbatim>\<open>invalidate\<close>).
\<close>

record state =
  message :: jstring
  isLoading :: bool
  backupMessage :: jstring
  infiniteData :: "qinput \<rightharpoonup> entry"
  queryData :: "qinput \<rightharpoonup> chat_message list"
  heap :: heap
  toasts :: "toast list"
  cancels :: nat
  invalidations :: "qinput list"

datatype ending = Done string | ReadFails

text \<open>
  A response body: the chunks that \<^verbatim>\<open>reader.read()\<close> delivers, each paired with the clock
  reading of the iteration that folds it, and how the stream ends: with \<^verbatim>\<open>done\<close> (and the
  clock reading of that last iteration) or with a rejected read.
\<close>

record stream =
  chunks :: "(string \<times> byte list) list"
  ending :: ending

text \<open>
  What \<^verbatim>\<open>fetch\<close> yields: a rejection, or a response with its \<^verbatim>\<open>ok\<close> flag and its body
  (\<^verbatim>\<open>null\<close> or a stream).
\<close>

datatype response = NetworkFailure | Response bool "stream option"

section \<open>The text decoder\<close>

text \<open>
  \<^verbatim>\<open>new TextDecoder()\<close> is the UTF-8 decoder of the platform in its default mode: errors are
  replaced by U+FFFD, a leading byte order mark is dropped, and, since \<^verbatim>\<open>decode(value)\<close> is
  called without the \<^verbatim>\<open>stream\<close> option, every call starts from the initial state and flushes
  at the end of its input. \<open>lead_byte\<close> is the decoder's step on a byte when no bytes are
  needed; \<open>utf8_decode\<close> carries the code point, the bytes needed and seen, and the lower and
  upper boundary for the next byte.
\<close>

datatype lead = Emit nat | Need nat nat nat nat | Bad

definition lead_byte :: "byte \<Rightarrow> lead" where
  "lead_byte b =
     (if b \<le> 0x7F then Emit (unat b)
      else if 0xC2 \<le> b \<and> b \<le> 0xDF then Need (unat (b AND 0x1F)) 1 0x80 0xBF
      else if 0xE0 \<le> b \<and> b \<le> 0xEF then
        Need (unat (b AND 0xF)) 2 (if b = 0xE0 then 0xA0 else 0x80) (if b = 0xED then 0x9F else 0xBF)
      else if 0xF0 \<le> b \<and> b \<le> 0xF4 then
        Need (unat (b AND 0x7)) 3 (if b = 0xF0 then 0x90 else 0x80) (if b = 0xF4 then 0x8F else 0xBF)
      else Bad)"

fun utf8_decode :: "(nat \<times> nat \<times> nat \<times> nat \<times> nat) option \<Rightarrow> byte list \<Rightarrow> nat list" where
  "utf8_decode None [] = []"
| "utf8_decode (Some st) [] = [0xFFFD]"
| "utf8_decode None (b # bs) =
     (case lead_byte b of
        Emit c \<Rightarrow> c # utf8_decode None bs
      | Need c n lo hi \<Rightarrow> utf8_decode (Some (c, n, 0, lo, hi)) bs
      | Bad \<Rightarrow> 0xFFFD # utf8_decode None bs)"
| "utf8_decode (Some (c, n, seen, lo, hi)) (b # bs) =
     (if unat b < lo \<or> hi < unat b then 0xFFFD # utf8_decode None (b # bs)
      else let c' = push_bit 6 c OR unat (b AND 0x3F) in
        if Suc seen \<noteq> n then utf8_decode (Some (c', n, Suc seen, 0x80, 0xBF)) bs
        else c' # utf8_decode None bs)"

definition decode :: "byte list \<Rightarrow> jstring" where
  "decode bs =
     (case utf8_decode None bs of
        [] \<Rightarrow> []
      | c # r \<Rightarrow> if c = 0xFEFF then r else c # r)"

section \<open>The cache store\<close>

text \<open>
  Modelled from the spec: the cache store is the query client of the tRPC and query
  libraries, which are not part of the source. Following section 4.1 of the specification
  it is a keyed store: a read returns the value stored under exactly the given key or
  nothing, and a transform replaces the value under the key by the result of the updater
  applied to the current value (absent values are passed as \<^verbatim>\<open>undefined\<close>). An exception of
  the updater leaves the store as it is and propagates.
\<close>

definition getInfiniteData :: "qinput \<Rightarrow> state \<Rightarrow> entry option" where
  "getInfiniteData k s = infiniteData s k"

definition setInfiniteData ::
  "qinput \<Rightarrow> (heap \<Rightarrow> entry option \<Rightarrow> error + heap \<times> entry) \<Rightarrow> state \<Rightarrow> error + state" where
  "setInfiniteData k updater s =
     (case updater (heap s) (infiniteData s k) of
        Inl e \<Rightarrow> Inl e
      | Inr (h, new) \<Rightarrow> Inr (s\<lparr>heap := h, infiniteData := (infiniteData s)(k \<mapsto> new)\<rparr>))"

definition setData :: "qinput \<Rightarrow> chat_message list \<Rightarrow> state \<Rightarrow> state" where
  "setData k v s = s\<lparr>queryData := (queryData s)(k \<mapsto> v)\<rparr>"

definition invalidate :: "qinput \<Rightarrow> state \<Rightarrow> state" where
  "invalidate k s = s\<lparr>invalidations := invalidations s @ [k]\<rparr>"

definition cancel :: "state \<Rightarrow> state" where
  "cancel s = s\<lparr>cancels := Suc (cancels s)\<rparr>"

text \<open>
  Modelled from the spec: \<^verbatim>\<open>invalidate\<close> marks an entry stale (section 4.1). Reads and writes
  address the one value stored under exactly the input given. The argument of \<^verbatim>\<open>invalidate\<close>
  is a filter instead: the query library matches it against every stored query of the
  procedure, of either family, and a query is matched when its input has the same value in
  every field that the filter gives. So a call without input covers every query, a call
  with \<^verbatim>\<open>{ fileId }\<close> covers the queries of that file whatever their \<^verbatim>\<open>limit\<close>, and a call
  with \<^verbatim>\<open>{ fileId, limit }\<close> covers the queries with both values.
\<close>

fun covers :: "qinput \<Rightarrow> qinput \<Rightarrow> bool" where
  "covers NoInput q = True"
| "covers (FileInput f) NoInput = False"
| "covers (FileInput f) (FileInput g) = (f = g)"
| "covers (FileInput f) (FileLimitInput g m) = (f = g)"
| "covers (FileLimitInput f n) NoInput = False"
| "covers (FileLimitInput f n) (FileInput g) = False"
| "covers (FileLimitInput f n) (FileLimitInput g m) = (f = g \<and> n = m)"

text \<open>The invalidate calls logged in a state that cover the query stored under \<open>q\<close>.\<close>

definition invalidate_calls_for :: "qinput \<Rightarrow> state \<Rightarrow> qinput list" where
  "invalidate_calls_for q s = filter (\<lambda>k. covers k q) (invalidations s)"

section \<open>The two updaters\<close>

text \<open>
  The updater of \<^verbatim>\<open>onMutate\<close> (lines 83 to 113). \<^verbatim>\<open>newPages\<close> is a copy of the array of
  page references, so \<^verbatim>\<open>latestPage\<close> is the first page object of \<^verbatim>\<open>old\<close> itself, and the
  assignment to \<^verbatim>\<open>latestPage.messages\<close> writes into that object. On an empty array
  \<^verbatim>\<open>newPages[0]\<close> is \<^verbatim>\<open>undefined\<close> and reading \<^verbatim>\<open>latestPage.messages\<close> throws.
\<close>

definition optimistic_update ::
  "string \<Rightarrow> string \<Rightarrow> jstring \<Rightarrow> heap \<Rightarrow> entry option \<Rightarrow> error + heap \<times> entry" where
  "optimistic_update now uuid msg h old =
     (case old of
        None \<Rightarrow> Inr (h, \<lparr>pages = [], pageParams = []\<rparr>)
      | Some e \<Rightarrow>
          (case pages e of
             [] \<Rightarrow> Inl TypeError
           | latestPage # rest \<Rightarrow>
               let p = objects h latestPage;
                   new = \<lparr>createdAt = now, msg_id = uuid, msg_text = msg, isUserMessage = True\<rparr>;
                   h' = h\<lparr>objects := (objects h)(latestPage := p\<lparr>messages := new # messages p\<rparr>)\<rparr>
               in Inr (h', e\<lparr>pages := latestPage # rest\<rparr>)))"

text \<open>The updater of the read loop of \<^verbatim>\<open>onSuccess\<close> (lines 156 to 195).\<close>

definition isAiResponseCreated :: "heap \<Rightarrow> entry \<Rightarrow> bool" where
  "isAiResponseCreated h e =
     list_ex (\<lambda>a. list_ex (\<lambda>m. msg_id m = ''ai-response'') (messages (objects h a))) (pages e)"

definition updatedMessages :: "string \<Rightarrow> jstring \<Rightarrow> bool \<Rightarrow> chat_message list \<Rightarrow> chat_message list" where
  "updatedMessages now accResponse created ms =
     (if \<not> created then
        \<lparr>createdAt = now, msg_id = ''ai-response'', msg_text = accResponse, isUserMessage = False\<rparr> # ms
      else map (\<lambda>m. if msg_id m = ''ai-response'' then m\<lparr>msg_text := accResponse\<rparr> else m) ms)"

definition first_page :: "entry \<Rightarrow> addr option" where
  "first_page e = (case pages e of [] \<Rightarrow> None | a # _ \<Rightarrow> Some a)"

text \<open>
  \<^verbatim>\<open>old.pages.map\<close>: a page that is the first page by reference is replaced by a newly
  allocated object, every other position keeps its reference.
\<close>

fun map_pages :: "(page \<Rightarrow> page) \<Rightarrow> addr option \<Rightarrow> heap \<Rightarrow> addr list \<Rightarrow> heap \<times> addr list" where
  "map_pages f first h [] = (h, [])"
| "map_pages f first h (a # as) =
     (if Some a = first then
        (case map_pages f first \<lparr>objects = (objects h)(fresh h := f (objects h a)), fresh = Suc (fresh h)\<rparr> as of
           (h', r) \<Rightarrow> (h', fresh h # r))
      else
        (case map_pages f first h as of (h', r) \<Rightarrow> (h', a # r)))"

definition stream_update :: "string \<Rightarrow> jstring \<Rightarrow> heap \<Rightarrow> entry option \<Rightarrow> heap \<times> entry" where
  "stream_update now accResponse h old =
     (case old of
        None \<Rightarrow> (h, \<lparr>pages = [], pageParams = []\<rparr>)
      | Some e \<Rightarrow>
          (case map_pages
                  (\<lambda>p. p\<lparr>messages := updatedMessages now accResponse (isAiResponseCreated h e) (messages p)\<rparr>)
                  (first_page e) h (pages e) of
             (h', updatedPages) \<Rightarrow> (h', e\<lparr>pages := updatedPages\<rparr>)))"

section \<open>The callbacks of the mutation\<close>

definition messages_key :: "config \<Rightarrow> qinput" where
  "messages_key cfg = FileLimitInput (fileId cfg) (INFINITE_QUERY_LIMIT cfg)"

text \<open>\<^verbatim>\<open>pages.flatMap((page) => page.messages)\<close>, on the page references and on an entry.\<close>

definition records_of :: "heap \<Rightarrow> addr list \<Rightarrow> chat_message list" where
  "records_of h as = concat (map (\<lambda>a. messages (objects h a)) as)"

definition flatten :: "heap \<Rightarrow> entry \<Rightarrow> chat_message list" where
  "flatten h e = records_of h (pages e)"

text \<open>
  \<^verbatim>\<open>onMutate\<close> (lines 68 to 124). The context it returns is computed after the updater has
  run, from the entry read before it. The result carries the state reached and either the
  exception thrown or the context.
\<close>

definition onMutate ::
  "config \<Rightarrow> string \<Rightarrow> string \<Rightarrow> jstring \<Rightarrow> state \<Rightarrow> state \<times> (error + chat_message list)" where
  "onMutate cfg now uuid msg s =
     (let s1 = s\<lparr>backupMessage := msg\<rparr>;
          s2 = s1\<lparr>message := []\<rparr>;
          s3 = cancel s2;
          previousMessages = getInfiniteData NoInput s3
      in case setInfiniteData (messages_key cfg) (optimistic_update now uuid msg) s3 of
           Inl e \<Rightarrow> (s3, Inl e)
         | Inr s4 \<Rightarrow>
             let s5 = s4\<lparr>isLoading := True\<rparr>
             in (s5, Inr (case previousMessages of
                            None \<Rightarrow> []
                          | Some e \<Rightarrow> flatten (heap s5) e)))"

text \<open>\<^verbatim>\<open>mutationFn\<close> (lines 49 to 66).\<close>

definition mutationFn :: "response \<Rightarrow> error + stream option" where
  "mutationFn r =
     (case r of
        NetworkFailure \<Rightarrow> Inl FetchRejected
      | Response ok body \<Rightarrow> if \<not> ok then Inl SendFailed else Inr body)"

definition problem_toast :: toast where
  "problem_toast =
     \<lparr>title = ''There was a problem sending this message'',
      description = ''Please refresh this page and try again'',
      variant = ''destructive''\<rparr>"

text \<open>
  The read loop of \<^verbatim>\<open>onSuccess\<close> (lines 146 to 197). Every iteration decodes the value
  read, appends it to \<^verbatim>\<open>accResponse\<close> and folds the accumulated text into the cache; the
  iteration that reads \<^verbatim>\<open>done\<close> decodes \<^verbatim>\<open>undefined\<close>, that is no bytes. The loop returns the
  states after each fold and whether it ended by an exception.
\<close>

fun read_loop ::
  "qinput \<Rightarrow> jstring \<Rightarrow> state \<Rightarrow> (string \<times> byte list) list \<Rightarrow> ending \<Rightarrow> state list \<times> (error + unit)" where
  "read_loop k accResponse s [] ReadFails = ([], Inl ReadRejected)"
| "read_loop k accResponse s [] (Done now) =
     (case setInfiniteData k (\<lambda>h old. Inr (stream_update now (accResponse @ decode []) h old)) s of
        Inl e \<Rightarrow> ([], Inl e)
      | Inr s' \<Rightarrow> ([s'], Inr ()))"
| "read_loop k accResponse s ((now, value) # rest) e =
     (case setInfiniteData k (\<lambda>h old. Inr (stream_update now (accResponse @ decode value) h old)) s of
        Inl err \<Rightarrow> ([], Inl err)
      | Inr s' \<Rightarrow>
          (case read_loop k (accResponse @ decode value) s' rest e of
             (tr, r) \<Rightarrow> (s' # tr, r)))"

text \<open>
  \<^verbatim>\<open>onSuccess\<close> (lines 126 to 198): the states after each fold, the state reached, and the
  exception if one was thrown.
\<close>

definition onSuccess :: "config \<Rightarrow> stream option \<Rightarrow> state \<Rightarrow> state list \<times> state \<times> (error + unit)" where
  "onSuccess cfg body s =
     (let s1 = s\<lparr>isLoading := False\<rparr>
      in case body of
           None \<Rightarrow> ([], s1\<lparr>toasts := toasts s1 @ [problem_toast]\<rparr>, Inr ())
         | Some st \<Rightarrow>
             (case read_loop (messages_key cfg) [] s1 (chunks st) (ending st) of
                (tr, r) \<Rightarrow> (tr, last (s1 # tr), r)))"

text \<open>\<^verbatim>\<open>onError\<close> (lines 200 to 208) and \<^verbatim>\<open>onSettled\<close> (lines 210 to 216).\<close>

definition onError :: "config \<Rightarrow> chat_message list option \<Rightarrow> state \<Rightarrow> state" where
  "onError cfg context s =
     (let s1 = s\<lparr>message := backupMessage s\<rparr>
      in setData (FileInput (fileId cfg))
           (case context of None \<Rightarrow> [] | Some previousMessages \<Rightarrow> previousMessages) s1)"

definition onSettled :: "config \<Rightarrow> state \<Rightarrow> state" where
  "onSettled cfg s = invalidate (FileInput (fileId cfg)) (s\<lparr>isLoading := False\<rparr>)"

section \<open>The life cycle of one mutation\<close>

text \<open>
  Modelled from the spec: the order in which the callbacks run is fixed by the mutation
  runner of the query library, which is not part of the source. Following section 4.3 of
  the specification: \<^verbatim>\<open>onMutate\<close> runs first, then the request; when the request yields a
  value \<^verbatim>\<open>onSuccess\<close> runs; an exception of \<^verbatim>\<open>onMutate\<close>, of the request or of \<^verbatim>\<open>onSuccess\<close>
  is caught by the runner and handed to \<^verbatim>\<open>onError\<close> (with the context if \<^verbatim>\<open>onMutate\<close> returned
  one); \<^verbatim>\<open>onSettled\<close> runs last in every case. The run is recorded as the list of the
  states reached, each tagged with the step that produced it.
\<close>

datatype phase = Mutated | Folded | Succeeded | Failed | Settled

definition fail_and_settle :: "config \<Rightarrow> chat_message list option \<Rightarrow> state \<Rightarrow> (phase \<times> state) list" where
  "fail_and_settle cfg context s =
     [(Failed, onError cfg context s), (Settled, onSettled cfg (onError cfg context s))]"

definition sendMessage ::
  "config \<Rightarrow> string \<Rightarrow> string \<Rightarrow> response \<Rightarrow> jstring \<Rightarrow> state \<Rightarrow> (phase \<times> state) list" where
  "sendMessage cfg now uuid resp msg s =
     (case onMutate cfg now uuid msg s of
        (s1, Inl e) \<Rightarrow> fail_and_settle cfg None s1
      | (s1, Inr context) \<Rightarrow>
          (Mutated, s1) #
          (case mutationFn resp of
             Inl e \<Rightarrow> fail_and_settle cfg (Some context) s1
           | Inr body \<Rightarrow>
               (case onSuccess cfg body s1 of
                  (tr, s2, Inl e) \<Rightarrow> map (Pair Folded) tr @ fail_and_settle cfg (Some context) s2
                | (tr, s2, Inr u) \<Rightarrow>
                    map (Pair Folded) tr @ [(Succeeded, s2), (Settled, onSettled cfg s2)])))"

text \<open>\<^verbatim>\<open>addMessage\<close> (line 225) submits the current text of the input field.\<close>

definition addMessage :: "config \<Rightarrow> string \<Rightarrow> string \<Rightarrow> response \<Rightarrow> state \<Rightarrow> (phase \<times> state) list" where
  "addMessage cfg now uuid resp s = sendMessage cfg now uuid resp (message s) s"

definition final :: "(phase \<times> state) list \<Rightarrow> state" where
  "final tr = snd (last tr)"

section \<open>Predicates of the properties\<close>

definition is_ai :: "chat_message \<Rightarrow> bool" where
  "is_ai m = (msg_id m = ''ai-response'')"

text \<open>
  The pages of an entry are separate objects of the store: no reference occurs twice and
  every reference is allocated.
\<close>

definition entry_ok :: "heap \<Rightarrow> entry \<Rightarrow> bool" where
  "entry_ok h e = (distinct (pages e) \<and> list_all (\<lambda>a. a < fresh h) (pages e))"

text \<open>
  At most one record of the entry carries the reserved identifier, and none outside the
  first page.
\<close>

definition single_pending :: "heap \<Rightarrow> entry \<Rightarrow> bool" where
  "single_pending h e =
     (length (filter is_ai (flatten h e)) \<le> 1 \<and>
      filter is_ai (records_of h (tl (pages e))) = [])"

definition pages_wf :: "qinput \<Rightarrow> state \<Rightarrow> bool" where
  "pages_wf k s = (case infiniteData s k of None \<Rightarrow> True | Some e \<Rightarrow> entry_ok (heap s) e)"

definition pending_ok :: "qinput \<Rightarrow> state \<Rightarrow> bool" where
  "pending_ok k s = (case infiniteData s k of None \<Rightarrow> True | Some e \<Rightarrow> single_pending (heap s) e)"

text \<open>The component state and the call log of \<open>s'\<close> are those of \<open>s\<close>, the loading flag apart.\<close>

definition same_ui :: "state \<Rightarrow> state \<Rightarrow> bool" where
  "same_ui s s' =
     (message s' = message s \<and> backupMessage s' = backupMessage s \<and>
      queryData s' = queryData s \<and> toasts s' = toasts s \<and> cancels s' = cancels s \<and>
      invalidations s' = invalidations s)"

text \<open>The state after one fold of the read loop.\<close>

definition folded :: "qinput \<Rightarrow> string \<Rightarrow> jstring \<Rightarrow> state \<Rightarrow> state" where
  "folded k now accResponse s =
     s\<lparr>heap := fst (stream_update now accResponse (heap s) (infiniteData s k)),
       infiniteData := (infiniteData s)(k \<mapsto> snd (stream_update now accResponse (heap s) (infiniteData s k)))\<rparr>"

text \<open>The texts of the records of the entry under \<open>k\<close> that carry the reserved identifier.\<close>

definition pending_texts :: "qinput \<Rightarrow> state \<Rightarrow> jstring list" where
  "pending_texts k s =
     (case infiniteData s k of
        None \<Rightarrow> []
      | Some e \<Rightarrow> map msg_text (filter is_ai (flatten (heap s) e)))"

section \<open>Concrete inputs\<close>

text \<open>
  A file \<^verbatim>\<open>f1\<close> with page size 10, the submitted text \<^verbatim>\<open>hi\<close>, a store with one page that
  holds one earlier record, a state whose cache is empty and a state whose cache holds that
  page under \<^verbatim>\<open>{ fileId, limit }\<close>; a store of two pages with given records and the entry of
  these two pages, with a record \<open>reply\<close> that carries the reserved identifier; streams that
  deliver \<^verbatim>\<open>Hel\<close> and then end or fail, and streams that deliver the two bytes of U+00E9 in
  one chunk and in two.
\<close>

definition cfg0 :: config where
  "cfg0 = \<lparr>fileId = ''f1'', INFINITE_QUERY_LIMIT = 10\<rparr>"

definition hi :: jstring where
  "hi = [0x68, 0x69]"

definition earlier :: chat_message where
  "earlier = \<lparr>createdAt = ''t0'', msg_id = ''m1'', msg_text = [0x3F], isUserMessage = True\<rparr>"

definition own :: chat_message where
  "own = \<lparr>createdAt = ''t1'', msg_id = ''u1'', msg_text = hi, isUserMessage = True\<rparr>"

definition h0 :: heap where
  "h0 = \<lparr>objects = (\<lambda>a. \<lparr>messages = (if a = 0 then [earlier] else []), nextCursor = None\<rparr>),
          fresh = 1\<rparr>"

definition s_empty :: state where
  "s_empty = \<lparr>message = hi, isLoading = False, backupMessage = [], infiniteData = Map.empty,
     queryData = Map.empty, heap = h0, toasts = [], cancels = 0, invalidations = []\<rparr>"

definition e0 :: entry where
  "e0 = \<lparr>pages = [0], pageParams = []\<rparr>"

definition s0 :: state where
  "s0 = s_empty\<lparr>infiniteData := [FileLimitInput ''f1'' 10 \<mapsto> e0]\<rparr>"


definition reply :: chat_message where
  "reply = \<lparr>createdAt = ''t2'', msg_id = ''ai-response'', msg_text = [0x48], isUserMessage = False\<rparr>"



definition hel :: stream where
  "hel = \<lparr>chunks = [(''t2'', [0x48, 0x65, 0x6C])], ending = Done ''t3''\<rparr>"

definition hel_fails :: stream where
  "hel_fails = \<lparr>chunks = [(''t2'', [0x48, 0x65, 0x6C])], ending = ReadFails\<rparr>"

definition e_acute_whole :: stream where
  "e_acute_whole = \<lparr>chunks = [(''t2'', [0xC3, 0xA9])], ending = Done ''t4''\<rparr>"

definition e_acute_split :: stream where
  "e_acute_split = \<lparr>chunks = [(''t2'', [0xC3]), (''t3'', [0xA9])], ending = Done ''t4''\<rparr>"

section \<open>Auxiliary facts\<close>

lemma records_of_simps [simp]:
  "records_of h [] = []"
  "records_of h (a # as) = messages (objects h a) @ records_of h as"
  by (simp_all add: records_of_def)

lemma records_of_cong:
  "(\<And>a. a \<in> set as \<Longrightarrow> objects h' a = objects h a) \<Longrightarrow> records_of h' as = records_of h as"
  by (induction as) auto

lemma map_pages_other: "a0 \<notin> set as \<Longrightarrow> map_pages f (Some a0) h as = (h, as)"
  by (induction as) auto

lemma stream_update_Some:
  assumes "pages e = a0 # rest" "a0 \<notin> set rest"
  shows "stream_update now acc h (Some e) =
    (\<lparr>objects = (objects h)(fresh h := (objects h a0)\<lparr>messages :=
         updatedMessages now acc (isAiResponseCreated h e) (messages (objects h a0))\<rparr>),
      fresh = Suc (fresh h)\<rparr>, e\<lparr>pages := fresh h # rest\<rparr>)"
  using assms by (simp add: stream_update_def first_page_def map_pages_other)

lemma stream_update_Nil:
  assumes "pages e = []"
  shows "stream_update now acc h (Some e) = (h, e)"
  using assms by (simp add: stream_update_def first_page_def)

lemma created_iff: "isAiResponseCreated h e \<longleftrightarrow> filter is_ai (flatten h e) \<noteq> []"
  by (auto simp: isAiResponseCreated_def flatten_def records_of_def is_ai_def list_ex_iff
      filter_empty_conv)

lemma count_replace:
  "length (filter (is_ai \<circ> (\<lambda>m. if msg_id m = ''ai-response'' then m\<lparr>msg_text := acc\<rparr> else m)) ms)
     = length (filter is_ai ms)"
  by (induction ms) (auto simp: is_ai_def)

lemma stream_update_inv:
  assumes ok: "entry_ok h e" and sp: "single_pending h e"
    and res: "stream_update now acc h (Some e) = (h', e')"
  shows "entry_ok h' e' \<and> single_pending h' e'"
proof (cases "pages e")
  case Nil
  with res ok sp show ?thesis by (simp add: stream_update_Nil)
next
  case (Cons a0 rest)
  from ok Cons have d: "a0 \<notin> set rest" "distinct rest"
    and lt: "a0 < fresh h" "\<forall>a\<in>set rest. a < fresh h"
    by (auto simp: entry_ok_def list_all_iff)
  from lt have ne: "\<forall>a\<in>set rest. a \<noteq> fresh h" by auto
  note su = stream_update_Some [OF Cons d(1), of now acc h]
  from res su have h': "h' = \<lparr>objects = (objects h)(fresh h := (objects h a0)\<lparr>messages :=
         updatedMessages now acc (isAiResponseCreated h e) (messages (objects h a0))\<rparr>),
      fresh = Suc (fresh h)\<rparr>" and e': "e' = e\<lparr>pages := fresh h # rest\<rparr>" by simp_all
  have ok': "entry_ok h' e'"
    using d lt ne by (auto simp: entry_ok_def h' e' list_all_iff)
  from sp Cons have restno: "filter is_ai (records_of h rest) = []"
    by (simp add: single_pending_def)
  have same: "records_of h' rest = records_of h rest"
    by (rule records_of_cong) (use ne in \<open>auto simp: h'\<close>)
  have first: "messages (objects h' (fresh h)) =
      updatedMessages now acc (isAiResponseCreated h e) (messages (objects h a0))"
    by (simp add: h')
  have sp': "single_pending h' e'"
  proof (cases "isAiResponseCreated h e")
    case True
    from sp Cons restno have "length (filter is_ai (messages (objects h a0))) \<le> 1"
      by (simp add: single_pending_def flatten_def)
    with True restno show ?thesis
      by (simp add: single_pending_def flatten_def e' first same updatedMessages_def count_replace)
  next
    case False
    then have "filter is_ai (messages (objects h a0)) = []"
      by (simp add: created_iff flatten_def Cons)
    with False restno show ?thesis
      by (simp add: single_pending_def flatten_def e' first same updatedMessages_def is_ai_def)
  qed
  from ok' sp' show ?thesis ..
qed

lemma optimistic_update_inv:
  assumes ok: "entry_ok h e" and sp: "single_pending h e" and u: "uuid \<noteq> ''ai-response''"
    and res: "optimistic_update now uuid msg h (Some e) = Inr (h', e')"
  shows "entry_ok h' e' \<and> single_pending h' e'"
proof (cases "pages e")
  case Nil
  with res show ?thesis by (simp add: optimistic_update_def)
next
  case (Cons a0 rest)
  from ok Cons have d: "a0 \<notin> set rest" "\<forall>a\<in>set rest. a \<noteq> a0"
    by (auto simp: entry_ok_def)
  from res Cons have h': "h' = h\<lparr>objects := (objects h)(a0 := (objects h a0)\<lparr>messages :=
      \<lparr>createdAt = now, msg_id = uuid, msg_text = msg, isUserMessage = True\<rparr> #
      messages (objects h a0)\<rparr>)\<rparr>"
    and e': "pages e' = pages e" by (auto simp add: optimistic_update_def Let_def)
  have same: "records_of h' rest = records_of h rest"
    by (rule records_of_cong) (use d in \<open>auto simp: h'\<close>)
  have first: "messages (objects h' a0) =
      \<lparr>createdAt = now, msg_id = uuid, msg_text = msg, isUserMessage = True\<rparr> #
      messages (objects h a0)"
    by (simp add: h')
  from ok have "entry_ok h' e'" by (simp add: entry_ok_def h' e')
  moreover from sp u Cons have "single_pending h' e'"
    by (simp add: single_pending_def flatten_def e' first same is_ai_def)
  ultimately show ?thesis ..
qed

lemma fold_step:
  "setInfiniteData k (\<lambda>h old. Inr (stream_update now acc h old)) s = Inr (folded k now acc s)"
  by (simp add: setInfiniteData_def folded_def split: prod.splits)

lemma decode_Nil: "decode [] = []"
  by (simp add: decode_def)

lemma read_loop_Done:
  "read_loop k acc s [] (Done now) = ([folded k now acc s], Inr ())"
  by (simp add: fold_step decode_Nil)

lemma read_loop_Cons:
  "read_loop k acc s ((now, v) # rest) e =
     (folded k now (acc @ decode v) s # fst (read_loop k (acc @ decode v) (folded k now (acc @ decode v) s) rest e),
      snd (read_loop k (acc @ decode v) (folded k now (acc @ decode v) s) rest e))"
  by (simp add: fold_step split: prod.splits)

lemma read_loop_Fails: "read_loop k acc s [] ReadFails = ([], Inl ReadRejected)"
  by simp

declare read_loop.simps [simp del]

lemma folded_ui: "same_ui s (folded k now acc s) \<and> isLoading (folded k now acc s) = isLoading s"
  by (simp add: same_ui_def folded_def)

lemma same_ui_trans: "same_ui a b \<Longrightarrow> same_ui b c \<Longrightarrow> same_ui a c"
  by (simp add: same_ui_def)

lemma folded_inv:
  assumes "pages_wf k s" "pending_ok k s"
  shows "pages_wf k (folded k now acc s) \<and> pending_ok k (folded k now acc s)"
proof (cases "infiniteData s k")
  case None
  then show ?thesis
    by (simp add: folded_def pages_wf_def pending_ok_def stream_update_def entry_ok_def
        single_pending_def flatten_def)
next
  case (Some e)
  obtain h' e' where su: "stream_update now acc (heap s) (Some e) = (h', e')"
    by (cases "stream_update now acc (heap s) (Some e)")
  from assms Some have "entry_ok (heap s) e" "single_pending (heap s) e"
    by (simp_all add: pages_wf_def pending_ok_def)
  from stream_update_inv [OF this su] show ?thesis
    by (simp add: folded_def pages_wf_def pending_ok_def Some su)
qed

lemma read_loop_props:
  "list_all (\<lambda>s'. same_ui s s' \<and> isLoading s' = isLoading s) (fst (read_loop k acc s cs e)) \<and>
   (pages_wf k s \<longrightarrow> pending_ok k s \<longrightarrow>
      list_all (\<lambda>s'. pages_wf k s' \<and> pending_ok k s') (fst (read_loop k acc s cs e))) \<and>
   snd (read_loop k acc s cs e) = (case e of ReadFails \<Rightarrow> Inl ReadRejected | Done t \<Rightarrow> Inr ()) \<and>
   length (fst (read_loop k acc s cs e)) = length cs + (case e of ReadFails \<Rightarrow> 0 | Done t \<Rightarrow> 1)"
proof (induction cs arbitrary: acc s)
  case Nil
  show ?case
    by (cases e) (simp_all add: read_loop_Done read_loop_Fails folded_ui folded_inv)
next
  case (Cons c cs)
  obtain now v where c: "c = (now, v)" by (cases c)
  let ?s' = "folded k now (acc @ decode v) s"
  note IH = Cons.IH [where acc = "acc @ decode v" and s = ?s']
  have ui: "same_ui s ?s' \<and> isLoading ?s' = isLoading s" by (rule folded_ui)
  have 1: "list_all (\<lambda>s'. same_ui s s' \<and> isLoading s' = isLoading s)
             (fst (read_loop k (acc @ decode v) ?s' cs e))"
    using IH ui by (auto simp: list_all_iff intro: same_ui_trans)
  show ?case
    unfolding c read_loop_Cons
    using IH ui 1 folded_inv [where k = k and s = s and now = now and acc = "acc @ decode v"] by simp
qed


lemma onMutate_ui:
  "message (fst (onMutate cfg now uuid msg s)) = [] \<and>
   backupMessage (fst (onMutate cfg now uuid msg s)) = msg \<and>
   toasts (fst (onMutate cfg now uuid msg s)) = toasts s \<and>
   invalidations (fst (onMutate cfg now uuid msg s)) = invalidations s \<and>
   queryData (fst (onMutate cfg now uuid msg s)) = queryData s \<and>
   cancels (fst (onMutate cfg now uuid msg s)) = Suc (cancels s)"
  by (simp add: onMutate_def setInfiniteData_def cancel_def Let_def split: sum.splits prod.splits)

lemma onMutate_busy:
  "snd (onMutate cfg now uuid msg s) = Inr ctx \<Longrightarrow> isLoading (fst (onMutate cfg now uuid msg s))"
  by (simp add: onMutate_def setInfiniteData_def cancel_def Let_def split: sum.splits prod.splits)

lemma onSuccess_stream:
  "onSuccess cfg (Some st) s =
     (fst (read_loop (messages_key cfg) [] (s\<lparr>isLoading := False\<rparr>) (chunks st) (ending st)),
      last (s\<lparr>isLoading := False\<rparr> # fst (read_loop (messages_key cfg) [] (s\<lparr>isLoading := False\<rparr>) (chunks st) (ending st))),
      (case ending st of ReadFails \<Rightarrow> Inl ReadRejected | Done t \<Rightarrow> Inr ()))"
  using read_loop_props [of "s\<lparr>isLoading := False\<rparr>" "messages_key cfg" "[]" "chunks st" "ending st"]
  by (simp add: onSuccess_def Let_def case_prod_beta)

lemma onSuccess_none:
  "onSuccess cfg None s = ([], s\<lparr>isLoading := False, toasts := toasts s @ [problem_toast]\<rparr>, Inr ())"
  by (simp add: onSuccess_def Let_def)

lemma loop_last_ui:
  "same_ui s (last (s # fst (read_loop k acc s cs e))) \<and>
   isLoading (last (s # fst (read_loop k acc s cs e))) = isLoading s"
proof (cases "fst (read_loop k acc s cs e) = []")
  case True
  then show ?thesis by (simp add: same_ui_def)
next
  case False
  then have "last (s # fst (read_loop k acc s cs e)) \<in> set (fst (read_loop k acc s cs e))"
    by simp
  with read_loop_props [of s k acc cs e] show ?thesis
    by (simp add: list_all_iff)
qed


lemma sendMessage_throw:
  assumes "snd (onMutate cfg now uuid msg s) = Inl e"
  shows "sendMessage cfg now uuid resp msg s =
           fail_and_settle cfg None (fst (onMutate cfg now uuid msg s))"
  using assms by (simp add: sendMessage_def case_prod_beta)

lemma sendMessage_request_fails:
  assumes "snd (onMutate cfg now uuid msg s) = Inr ctx" "mutationFn resp = Inl e"
  shows "sendMessage cfg now uuid resp msg s =
           (Mutated, fst (onMutate cfg now uuid msg s)) #
           fail_and_settle cfg (Some ctx) (fst (onMutate cfg now uuid msg s))"
  using assms by (simp add: sendMessage_def case_prod_beta)

lemma sendMessage_no_body:
  assumes "snd (onMutate cfg now uuid msg s) = Inr ctx" "mutationFn resp = Inr None"
  shows "sendMessage cfg now uuid resp msg s =
           [(Mutated, fst (onMutate cfg now uuid msg s)),
            (Succeeded, (fst (onMutate cfg now uuid msg s))
               \<lparr>isLoading := False,
                toasts := toasts (fst (onMutate cfg now uuid msg s)) @ [problem_toast]\<rparr>),
            (Settled, onSettled cfg ((fst (onMutate cfg now uuid msg s))
               \<lparr>isLoading := False,
                toasts := toasts (fst (onMutate cfg now uuid msg s)) @ [problem_toast]\<rparr>))]"
  using assms by (simp add: sendMessage_def onSuccess_none case_prod_beta)

lemma sendMessage_stream_done:
  assumes "snd (onMutate cfg now uuid msg s) = Inr ctx" "mutationFn resp = Inr (Some st)"
    and "ending st = Done t"
    and "s1 = (fst (onMutate cfg now uuid msg s))\<lparr>isLoading := False\<rparr>"
    and "tr = fst (read_loop (messages_key cfg) [] s1 (chunks st) (ending st))"
  shows "sendMessage cfg now uuid resp msg s =
           (Mutated, fst (onMutate cfg now uuid msg s)) # map (Pair Folded) tr @
           [(Succeeded, last (s1 # tr)), (Settled, onSettled cfg (last (s1 # tr)))]"
  using assms by (simp add: sendMessage_def onSuccess_stream case_prod_beta)

lemma sendMessage_stream_fails:
  assumes "snd (onMutate cfg now uuid msg s) = Inr ctx" "mutationFn resp = Inr (Some st)"
    and "ending st = ReadFails"
    and "s1 = (fst (onMutate cfg now uuid msg s))\<lparr>isLoading := False\<rparr>"
    and "tr = fst (read_loop (messages_key cfg) [] s1 (chunks st) (ending st))"
  shows "sendMessage cfg now uuid resp msg s =
           (Mutated, fst (onMutate cfg now uuid msg s)) # map (Pair Folded) tr @
           fail_and_settle cfg (Some ctx) (last (s1 # tr))"
  using assms by (simp add: sendMessage_def onSuccess_stream case_prod_beta)

lemma sendMessage_cases:
  obtains (throw) e where "snd (onMutate cfg now uuid msg s) = Inl e"
  | (request_fails) ctx e where "snd (onMutate cfg now uuid msg s) = Inr ctx" "mutationFn resp = Inl e"
  | (no_body) ctx where "snd (onMutate cfg now uuid msg s) = Inr ctx" "mutationFn resp = Inr None"
  | (stream_done) ctx st t where "snd (onMutate cfg now uuid msg s) = Inr ctx"
      "mutationFn resp = Inr (Some st)" "ending st = Done t"
  | (stream_fails) ctx st where "snd (onMutate cfg now uuid msg s) = Inr ctx"
      "mutationFn resp = Inr (Some st)" "ending st = ReadFails"
proof (cases "snd (onMutate cfg now uuid msg s)")
  case (Inl e)
  then show ?thesis by (rule throw)
next
  case (Inr ctx)
  show ?thesis
  proof (cases "mutationFn resp")
    case (Inl e)
    with Inr show ?thesis by (rule request_fails)
  next
    case body: (Inr b)
    show ?thesis
    proof (cases b)
      case None
      with Inr body show ?thesis by (auto intro: no_body)
    next
      case (Some st)
      with Inr body show ?thesis by (cases "ending st") (auto intro: stream_done stream_fails)
    qed
  qed
qed

lemma fail_and_settle_facts:
  "fst (last (fail_and_settle cfg c s)) = Settled"
  "snd (last (fail_and_settle cfg c s)) = onSettled cfg (onError cfg c s)"
  "butlast (fail_and_settle cfg c s) = [(Failed, onError cfg c s)]"
  by (simp_all add: fail_and_settle_def)

lemma onError_fields:
  "message (onError cfg c s) = backupMessage s"
  "isLoading (onError cfg c s) = isLoading s"
  "toasts (onError cfg c s) = toasts s"
  "invalidations (onError cfg c s) = invalidations s"
  "infiniteData (onError cfg c s) = infiniteData s"
  "heap (onError cfg c s) = heap s"
  "backupMessage (onError cfg c s) = backupMessage s"
  by (simp_all add: onError_def setData_def Let_def)

lemma onSettled_fields:
  "message (onSettled cfg s) = message s"
  "isLoading (onSettled cfg s) = False"
  "toasts (onSettled cfg s) = toasts s"
  "invalidations (onSettled cfg s) = invalidations s @ [FileInput (fileId cfg)]"
  "infiniteData (onSettled cfg s) = infiniteData s"
  "heap (onSettled cfg s) = heap s"
  "queryData (onSettled cfg s) = queryData s"
  by (simp_all add: onSettled_def invalidate_def)

lemmas run_defs = sendMessage_def onMutate_def onSuccess_def onSettled_def onError_def
  fail_and_settle_def mutationFn_def setInfiniteData_def getInfiniteData_def setData_def
  invalidate_def cancel_def messages_key_def optimistic_update_def Let_def final_def

lemmas input_defs = cfg0_def s0_def s_empty_def e0_def h0_def hel_def hel_fails_def hi_def
  earlier_def own_def

lemma folded_fields:
  "isLoading (folded k now acc s) = isLoading s"
  "message (folded k now acc s) = message s"
  "toasts (folded k now acc s) = toasts s"
  "invalidations (folded k now acc s) = invalidations s"
  "backupMessage (folded k now acc s) = backupMessage s"
  "queryData (folded k now acc s) = queryData s"
  by (simp_all add: folded_def)

lemma mutationFn_ok: "mutationFn (Response True b) = Inr b"
  by (simp add: mutationFn_def)

lemma flatten_eval: "flatten h \<lparr>pages = as, pageParams = ps\<rparr> = records_of h as"
  by (simp add: flatten_def)

lemmas fold_defs = folded_def stream_update_def first_page_def updatedMessages_def
  isAiResponseCreated_def pending_texts_def flatten_def is_ai_def

lemma decode_hel: "decode [0x48, 0x65, 0x6C] = [0x48, 0x65, 0x6C]"
  by (simp add: decode_def lead_byte_def)

lemma decode_e_acute:
  "decode [0xC3, 0xA9] = [0xE9]" "decode [0xC3] = [0xFFFD]" "decode [0xA9] = [0xFFFD]"
  by (simp_all add: decode_def lead_byte_def)

lemma onMutate_present:
  assumes "infiniteData s (messages_key cfg) = Some e" "pages e = a # rest"
  shows "onMutate cfg now uuid msg s =
    (s\<lparr>backupMessage := msg, message := [], cancels := Suc (cancels s),
       heap := (heap s)\<lparr>objects := (objects (heap s))(a := (objects (heap s) a)\<lparr>messages :=
         \<lparr>createdAt = now, msg_id = uuid, msg_text = msg, isUserMessage = True\<rparr> #
         messages (objects (heap s) a)\<rparr>)\<rparr>,
       infiniteData := (infiniteData s)(messages_key cfg \<mapsto> e\<lparr>pages := a # rest\<rparr>),
       isLoading := True\<rparr>,
     Inr (case infiniteData s NoInput of None \<Rightarrow> []
          | Some e' \<Rightarrow> flatten ((heap s)\<lparr>objects := (objects (heap s))(a := (objects (heap s) a)\<lparr>messages :=
         \<lparr>createdAt = now, msg_id = uuid, msg_text = msg, isUserMessage = True\<rparr> #
         messages (objects (heap s) a)\<rparr>)\<rparr>) e'))"
  using assms
  by (simp add: onMutate_def setInfiniteData_def getInfiniteData_def cancel_def
      optimistic_update_def Let_def split: option.splits)

lemma onMutate_absent:
  assumes "infiniteData s (messages_key cfg) = None"
  shows "onMutate cfg now uuid msg s =
    (s\<lparr>backupMessage := msg, message := [], cancels := Suc (cancels s),
       infiniteData := (infiniteData s)(messages_key cfg \<mapsto> \<lparr>pages = [], pageParams = []\<rparr>),
       isLoading := True\<rparr>,
     Inr (case infiniteData s NoInput of None \<Rightarrow> [] | Some e' \<Rightarrow> flatten (heap s) e'))"
  using assms
  by (simp add: onMutate_def setInfiniteData_def getInfiniteData_def cancel_def
      optimistic_update_def Let_def split: option.splits)

lemma onMutate_no_page:
  assumes "infiniteData s (messages_key cfg) = Some e" "pages e = []"
  shows "onMutate cfg now uuid msg s =
    (s\<lparr>backupMessage := msg, message := [], cancels := Suc (cancels s)\<rparr>, Inl TypeError)"
  using assms
  by (simp add: onMutate_def setInfiniteData_def getInfiniteData_def cancel_def
      optimistic_update_def Let_def split: option.splits)

lemma sendMessage_hd:
  "snd (onMutate cfg now uuid msg s) = Inr ctx \<Longrightarrow>
   hd (sendMessage cfg now uuid resp msg s) = (Mutated, fst (onMutate cfg now uuid msg s))"
  by (simp add: sendMessage_def case_prod_beta)

lemma stream_update_pure:
  assumes "entry_ok h e"
  shows "\<forall>a<fresh h. objects (fst (stream_update now acc h (Some e))) a = objects h a"
proof (cases "pages e")
  case Nil
  then show ?thesis by (simp add: stream_update_Nil)
next
  case (Cons a0 rest)
  with assms have "a0 \<notin> set rest" by (simp add: entry_ok_def)
  from stream_update_Some [OF Cons this] show ?thesis by simp
qed

lemma inv_cong:
  "infiniteData s' = infiniteData s \<Longrightarrow> heap s' = heap s \<Longrightarrow>
   pending_ok k s' = pending_ok k s \<and> pages_wf k s' = pages_wf k s"
  by (simp add: pending_ok_def pages_wf_def split: option.splits)

lemma onMutate_inv:
  assumes wf: "pages_wf (messages_key cfg) s" and ok: "pending_ok (messages_key cfg) s"
    and u: "uuid \<noteq> ''ai-response''"
  shows "pages_wf (messages_key cfg) (fst (onMutate cfg now uuid msg s)) \<and>
         pending_ok (messages_key cfg) (fst (onMutate cfg now uuid msg s))"
proof (cases "infiniteData s (messages_key cfg)")
  case None
  then show ?thesis
    by (simp add: onMutate_absent pages_wf_def pending_ok_def entry_ok_def single_pending_def
        flatten_def)
next
  case (Some e)
  from wf ok Some have e: "entry_ok (heap s) e" "single_pending (heap s) e"
    by (simp_all add: pages_wf_def pending_ok_def)
  show ?thesis
  proof (cases "pages e")
    case Nil
    with Some wf ok show ?thesis
      by (simp add: onMutate_no_page pages_wf_def pending_ok_def)
  next
    case (Cons a rest)
    let ?h = "(heap s)\<lparr>objects := (objects (heap s))(a := (objects (heap s) a)\<lparr>messages :=
         \<lparr>createdAt = now, msg_id = uuid, msg_text = msg, isUserMessage = True\<rparr> #
         messages (objects (heap s) a)\<rparr>)\<rparr>"
    have "optimistic_update now uuid msg (heap s) (Some e) = Inr (?h, e\<lparr>pages := a # rest\<rparr>)"
      using Cons by (simp add: optimistic_update_def Let_def)
    from optimistic_update_inv [OF e u this] show ?thesis
      by (simp add: onMutate_present [OF Some Cons] pages_wf_def pending_ok_def)
  qed
qed

lemma replace_texts:
  "map msg_text (filter is_ai (map (\<lambda>m. if msg_id m = ''ai-response'' then m\<lparr>msg_text := acc\<rparr> else m) ms)) =
     replicate (length (filter is_ai ms)) acc"
  by (induction ms) (auto simp: is_ai_def)

lemma folded_text:
  assumes e: "infiniteData s k = Some e" and ne: "pages e \<noteq> []"
    and ok: "entry_ok (heap s) e" and sp: "single_pending (heap s) e"
  shows "pending_texts k (folded k now acc s) = [acc] \<and>
         (\<exists>e'. infiniteData (folded k now acc s) k = Some e' \<and> pages e' \<noteq> [])"
proof -
  from ne obtain a0 rest where Cons: "pages e = a0 # rest" by (cases "pages e") auto
  from ok Cons have d: "a0 \<notin> set rest" and lt: "\<forall>a\<in>set rest. a < fresh (heap s)"
    by (auto simp: entry_ok_def list_all_iff)
  note su = stream_update_Some [OF Cons d, of now acc "heap s"]
  let ?h' = "fst (stream_update now acc (heap s) (Some e))"
  from sp Cons have restno: "filter is_ai (records_of (heap s) rest) = []"
    by (simp add: single_pending_def)
  have same: "records_of ?h' rest = records_of (heap s) rest"
    by (rule records_of_cong) (use lt in \<open>auto simp: su\<close>)
  have first: "messages (objects ?h' (fresh (heap s))) =
      updatedMessages now acc (isAiResponseCreated (heap s) e) (messages (objects (heap s) a0))"
    by (simp add: su)
  have reply: "map msg_text (filter is_ai (updatedMessages now acc (isAiResponseCreated (heap s) e)
               (messages (objects (heap s) a0)))) = [acc]"
  proof (cases "isAiResponseCreated (heap s) e")
    case True
    then have "filter is_ai (messages (objects (heap s) a0)) \<noteq> []"
      using restno by (simp add: created_iff flatten_def Cons)
    moreover from sp Cons restno have "length (filter is_ai (messages (objects (heap s) a0))) \<le> 1"
      by (simp add: single_pending_def flatten_def)
    ultimately have "length (filter is_ai (messages (objects (heap s) a0))) = 1"
      by (cases "filter is_ai (messages (objects (heap s) a0))") auto
    with True show ?thesis
      by (simp add: updatedMessages_def replace_texts)
  next
    case False
    then have "filter is_ai (messages (objects (heap s) a0)) = []"
      by (simp add: created_iff flatten_def Cons)
    with False show ?thesis
      by (simp add: updatedMessages_def is_ai_def)
  qed
  have pe: "infiniteData (folded k now acc s) k = Some (e\<lparr>pages := fresh (heap s) # rest\<rparr>)"
    by (simp add: folded_def e su)
  have ph: "heap (folded k now acc s) = ?h'"
    by (simp add: folded_def e)
  have "pending_texts k (folded k now acc s) = [acc]"
    using reply restno
    by (simp add: pending_texts_def pe ph flatten_def first same)
  with pe show ?thesis by simp
qed

lemma read_loop_text:
  assumes "infiniteData s k = Some e" "pages e \<noteq> []" "pages_wf k s" "pending_ok k s"
  shows "pending_texts k (last (fst (read_loop k acc s cs (Done t)))) =
           [acc @ concat (map (decode \<circ> snd) cs)]"
  using assms
proof (induction cs arbitrary: acc s e)
  case Nil
  then have "entry_ok (heap s) e" "single_pending (heap s) e"
    by (simp_all add: pages_wf_def pending_ok_def)
  from folded_text [OF Nil(1,2) this] show ?case
    by (simp add: read_loop_Done)
next
  case (Cons c cs)
  obtain now v where c: "c = (now, v)" by (cases c)
  let ?s' = "folded k now (acc @ decode v) s"
  from Cons.prems have "entry_ok (heap s) e" "single_pending (heap s) e"
    by (simp_all add: pages_wf_def pending_ok_def)
  from folded_text [OF Cons.prems(1,2) this, of now "acc @ decode v"]
  obtain e' where e': "infiniteData ?s' k = Some e'" "pages e' \<noteq> []" by auto
  from folded_inv [OF Cons.prems(3,4), of now "acc @ decode v"]
  have inv: "pages_wf k ?s'" "pending_ok k ?s'" by simp_all
  have nonempty: "fst (read_loop k (acc @ decode v) ?s' cs (Done t)) \<noteq> []"
    using read_loop_props [of ?s' k "acc @ decode v" cs "Done t"] by auto
  from Cons.IH [OF e' inv, of "acc @ decode v"] nonempty show ?case
    by (simp add: c read_loop_Cons)
qed


lemma pending_texts_cong:
  "infiniteData s' = infiniteData s \<Longrightarrow> heap s' = heap s \<Longrightarrow>
   pending_texts k s' = pending_texts k s"
  by (simp add: pending_texts_def split: option.splits)

lemma reply_is_concat_of_decoded_chunks:
  assumes e: "infiniteData s (messages_key cfg) = Some e" and p: "pages e = a # rest"
    and wf: "pages_wf (messages_key cfg) s" and ok: "pending_ok (messages_key cfg) s"
    and u: "uuid \<noteq> ''ai-response''" and d: "ending st = Done t"
  shows "pending_texts (messages_key cfg)
           (final (sendMessage cfg now uuid (Response True (Some st)) msg s)) =
         [concat (map (decode \<circ> snd) (chunks st))]"
proof -
  let ?k = "messages_key cfg"
  let ?s0 = "fst (onMutate cfg now uuid msg s)"
  let ?s1 = "?s0\<lparr>isLoading := False\<rparr>"
  let ?tr = "fst (read_loop ?k [] ?s1 (chunks st) (ending st))"
  note om = onMutate_present [OF e p, of now uuid msg]
  from om obtain ctx where r: "snd (onMutate cfg now uuid msg s) = Inr ctx"
    by simp
  from onMutate_inv [OF wf ok u, of now msg]
  have i1: "pages_wf ?k ?s1" "pending_ok ?k ?s1"
    by (simp_all add: inv_cong [of ?s1 ?s0])
  have e1: "infiniteData ?s1 ?k = Some (e\<lparr>pages := a # rest\<rparr>)" by (simp add: om)
  have ne: "?tr \<noteq> []"
    using read_loop_props [of ?s1 ?k "[]" "chunks st" "ending st"] d by auto
  from read_loop_text [OF e1 _ i1, of "[]" "chunks st" t] d
  have "pending_texts ?k (last ?tr) = [concat (map (decode \<circ> snd) (chunks st))]" by simp
  with ne show ?thesis
    by (simp add: sendMessage_stream_done [OF r mutationFn_ok d refl refl] final_def
        pending_texts_cong [of "onSettled cfg (last ?tr)" "last ?tr"] onSettled_fields)
qed

lemma onMutate_throw_busy:
  "snd (onMutate cfg now uuid msg s) = Inl e \<Longrightarrow>
   isLoading (fst (onMutate cfg now uuid msg s)) = isLoading s"
  by (simp add: onMutate_def setInfiniteData_def cancel_def Let_def split: sum.splits prod.splits)




lemma run_invalidations:
  "fst (last (sendMessage cfg now uuid resp msg s)) = Settled \<and>
   fst (last (butlast (sendMessage cfg now uuid resp msg s))) \<in> {Succeeded, Failed} \<and>
   list_all (\<lambda>ps. invalidations (snd ps) = invalidations s) (butlast (sendMessage cfg now uuid resp msg s)) \<and>
   invalidations (final (sendMessage cfg now uuid resp msg s)) = invalidations s @ [FileInput (fileId cfg)] \<and>
   isLoading (final (sendMessage cfg now uuid resp msg s)) = False"
proof -
  let ?s0 = "fst (onMutate cfg now uuid msg s)"
  let ?s1 = "?s0\<lparr>isLoading := False\<rparr>"
  have om: "invalidations ?s0 = invalidations s" by (simp add: onMutate_ui)
  show ?thesis
  proof (cases rule: sendMessage_cases [where cfg = cfg and now = now and uuid = uuid and msg = msg and s = s and resp = resp])
    case (throw e)
    show ?thesis
      by (simp add: sendMessage_throw [OF throw] final_def fail_and_settle_facts
          onError_fields onSettled_fields om)
  next
    case (request_fails ctx e)
    show ?thesis
      by (simp add: sendMessage_request_fails [OF request_fails] final_def fail_and_settle_def
          onError_fields onSettled_fields om)
  next
    case (no_body ctx)
    show ?thesis
      by (simp add: sendMessage_no_body [OF no_body] final_def onSettled_fields om)
  next
    case (stream_done ctx st t)
    let ?tr = "fst (read_loop (messages_key cfg) [] ?s1 (chunks st) (ending st))"
    have a: "list_all (\<lambda>s'. invalidations s' = invalidations s) ?tr"
      using read_loop_props [of ?s1 "messages_key cfg" "[]" "chunks st" "ending st"] om
      by (simp add: list_all_iff same_ui_def)
    have b: "invalidations (last (?s1 # ?tr)) = invalidations s"
      using loop_last_ui [of ?s1 "messages_key cfg" "[]" "chunks st" "ending st"] om
      by (simp add: same_ui_def)
    show ?thesis
      using a b
      by (simp add: sendMessage_stream_done [OF stream_done refl refl] final_def onSettled_fields
          om butlast_append list_all_iff)
  next
    case (stream_fails ctx st)
    let ?tr = "fst (read_loop (messages_key cfg) [] ?s1 (chunks st) (ending st))"
    have a: "list_all (\<lambda>s'. invalidations s' = invalidations s) ?tr"
      using read_loop_props [of ?s1 "messages_key cfg" "[]" "chunks st" "ending st"] om
      by (simp add: list_all_iff same_ui_def)
    have b: "invalidations (last (?s1 # ?tr)) = invalidations s"
      using loop_last_ui [of ?s1 "messages_key cfg" "[]" "chunks st" "ending st"] om
      by (simp add: same_ui_def)
    show ?thesis
      using a b
      by (simp add: sendMessage_stream_fails [OF stream_fails refl refl] final_def
          fail_and_settle_def onError_fields onSettled_fields om butlast_append list_all_iff)
  qed
qed

section \<open>The claims\<close>

text \<open>
  Claim C9. For every mutation, whatever the state, the response and the stream, the run ends
  in the settled step; the step before it is the terminal one (succeeded or failed); no
  invalidate call is made before the settled step, which makes exactly one, with
  \<^verbatim>\<open>{ fileId }\<close>; that call covers the entry of the fingerprint \<^verbatim>\<open>{ fileId, limit }\<close>, so the
  invalidate calls for the fingerprint are those made before the run at every earlier step
  and exactly one more after the settled step; and the loading flag is false afterwards.
\<close>

theorem settle_invalidates_once:
  "fst (last (sendMessage cfg now uuid resp msg s)) = Settled \<and>
   fst (last (butlast (sendMessage cfg now uuid resp msg s))) \<in> {Succeeded, Failed} \<and>
   list_all (\<lambda>ps. invalidations (snd ps) = invalidations s) (butlast (sendMessage cfg now uuid resp msg s)) \<and>
   invalidations (final (sendMessage cfg now uuid resp msg s)) = invalidations s @ [FileInput (fileId cfg)] \<and>
   isLoading (final (sendMessage cfg now uuid resp msg s)) = False \<and>
   covers (FileInput (fileId cfg)) (messages_key cfg) \<and>
   list_all (\<lambda>ps. invalidate_calls_for (messages_key cfg) (snd ps) =
                  invalidate_calls_for (messages_key cfg) s)
     (butlast (sendMessage cfg now uuid resp msg s)) \<and>
   invalidate_calls_for (messages_key cfg) (final (sendMessage cfg now uuid resp msg s)) =
     invalidate_calls_for (messages_key cfg) s @ [FileInput (fileId cfg)] \<and>
   length (invalidate_calls_for (messages_key cfg) (final (sendMessage cfg now uuid resp msg s))) =
     Suc (length (invalidate_calls_for (messages_key cfg) s))"
proof -
  note r = run_invalidations [of cfg now uuid resp msg s]
  have c: "covers (FileInput (fileId cfg)) (messages_key cfg)"
    by (simp add: messages_key_def)
  from r have "list_all (\<lambda>ps. invalidate_calls_for (messages_key cfg) (snd ps) =
                  invalidate_calls_for (messages_key cfg) s)
     (butlast (sendMessage cfg now uuid resp msg s))"
    by (simp add: list_all_iff invalidate_calls_for_def)
  moreover from r c have "invalidate_calls_for (messages_key cfg)
      (final (sendMessage cfg now uuid resp msg s)) =
     invalidate_calls_for (messages_key cfg) s @ [FileInput (fileId cfg)]"
    by (simp add: invalidate_calls_for_def)
  ultimately show ?thesis using r c by simp
qed

text \<open>
  Claim C7, as stated, fails. \<^verbatim>\<open>onSuccess\<close> clears the loading flag in its first statement,
  before the reader is obtained: in the run below the flag is false after each fold of the
  stream, not only at the terminal step.
\<close>

theorem busy_counterexample:
  "map (map_prod id isLoading) (sendMessage cfg0 ''t1'' ''u1'' (Response True (Some hel)) hi s0) =
     [(Mutated, True), (Folded, False), (Folded, False), (Succeeded, False), (Settled, False)]"
  by (simp add: run_defs input_defs read_loop_Cons read_loop_Done folded_fields)

text \<open>
  Claim C7, amended. The loading flag is set to true when \<^verbatim>\<open>onMutate\<close> returns, and the run
  then starts with the mutated step; the flag stays true while the request is in flight.
  When the request yields a value (an ok response) the flag is cleared at once, before the
  first increment is folded: it is false after every fold of the stream and at the
  succeeded step. At the failed step the flag is as the path left it: still true when the
  request failed (a rejected fetch or a response that is not ok), false when a read of the
  stream failed, and unchanged from before the submit when \<^verbatim>\<open>onMutate\<close> itself threw. In
  every case it is false at the settled step.
\<close>

theorem busy_by_phase:
  "list_all (\<lambda>ps. (fst ps = Mutated \<longrightarrow> isLoading (snd ps)) \<and>
                  (fst ps \<in> {Folded, Succeeded, Settled} \<longrightarrow> \<not> isLoading (snd ps)) \<and>
                  (fst ps = Failed \<longrightarrow>
                     isLoading (snd ps) =
                       (if isl (snd (onMutate cfg now uuid msg s)) then isLoading s
                        else isl (mutationFn resp))))
     (sendMessage cfg now uuid resp msg s) \<and>
   (\<not> isl (snd (onMutate cfg now uuid msg s)) \<longrightarrow>
      fst (hd (sendMessage cfg now uuid resp msg s)) = Mutated) \<and>
   (isl (snd (onMutate cfg now uuid msg s)) \<longrightarrow>
      map fst (sendMessage cfg now uuid resp msg s) = [Failed, Settled])"
proof -
  let ?s0 = "fst (onMutate cfg now uuid msg s)"
  let ?s1 = "?s0\<lparr>isLoading := False\<rparr>"
  show ?thesis
  proof (cases rule: sendMessage_cases [where cfg = cfg and now = now and uuid = uuid
        and msg = msg and s = s and resp = resp])
    case (throw e)
    show ?thesis
      by (simp add: sendMessage_throw [OF throw] fail_and_settle_def onSettled_fields
          onError_fields onMutate_throw_busy [OF throw] throw)
  next
    case (request_fails ctx e)
    show ?thesis
      by (simp add: sendMessage_request_fails [OF request_fails] fail_and_settle_def
          onSettled_fields onError_fields onMutate_busy [OF request_fails(1)] request_fails)
  next
    case (no_body ctx)
    show ?thesis
      by (simp add: sendMessage_no_body [OF no_body] onSettled_fields
          onMutate_busy [OF no_body(1)] no_body)
  next
    case (stream_done ctx st t)
    let ?tr = "fst (read_loop (messages_key cfg) [] ?s1 (chunks st) (ending st))"
    have a: "list_all (\<lambda>s'. \<not> isLoading s') ?tr"
      using read_loop_props [of ?s1 "messages_key cfg" "[]" "chunks st" "ending st"]
      by (simp add: list_all_iff)
    have b: "\<not> isLoading (last (?s1 # ?tr))"
      using loop_last_ui [of ?s1 "messages_key cfg" "[]" "chunks st" "ending st"] by simp
    show ?thesis
      using a b
      by (simp add: sendMessage_stream_done [OF stream_done refl refl] onSettled_fields
          onMutate_busy [OF stream_done(1)] list_all_iff stream_done(1))
  next
    case (stream_fails ctx st)
    let ?tr = "fst (read_loop (messages_key cfg) [] ?s1 (chunks st) (ending st))"
    have a: "list_all (\<lambda>s'. \<not> isLoading s') ?tr"
      using read_loop_props [of ?s1 "messages_key cfg" "[]" "chunks st" "ending st"]
      by (simp add: list_all_iff)
    have b: "\<not> isLoading (last (?s1 # ?tr))"
      using loop_last_ui [of ?s1 "messages_key cfg" "[]" "chunks st" "ending st"] by simp
    show ?thesis
      using a b
      by (simp add: sendMessage_stream_fails [OF stream_fails refl refl] fail_and_settle_def
          onSettled_fields onError_fields onMutate_busy [OF stream_fails(1)] list_all_iff
          stream_fails(1,2))
  qed
qed

theorem busy_by_phase_witness:
  "map (map_prod id isLoading) (sendMessage cfg0 ''t1'' ''u1'' (Response True (Some hel)) hi s0) =
     [(Mutated, True), (Folded, False), (Folded, False), (Succeeded, False), (Settled, False)] \<and>
   map (map_prod id isLoading) (sendMessage cfg0 ''t1'' ''u1'' (Response False (Some hel)) hi s0) =
     [(Mutated, True), (Failed, True), (Settled, False)] \<and>
   map (map_prod id isLoading) (sendMessage cfg0 ''t1'' ''u1'' NetworkFailure hi s0) =
     [(Mutated, True), (Failed, True), (Settled, False)] \<and>
   map (map_prod id isLoading) (sendMessage cfg0 ''t1'' ''u1'' (Response True (Some hel_fails)) hi s0) =
     [(Mutated, True), (Folded, False), (Failed, False), (Settled, False)] \<and>
   map (map_prod id isLoading)
     (sendMessage cfg0 ''t1'' ''u1'' (Response True (Some hel)) hi
        (s0\<lparr>infiniteData := [FileLimitInput ''f1'' 10 \<mapsto> \<lparr>pages = [], pageParams = []\<rparr>]\<rparr>)) =
     [(Failed, False), (Settled, False)] \<and>
   list_all (\<lambda>ps. (fst ps = Mutated \<longrightarrow> isLoading (snd ps)) \<and>
                  (fst ps \<in> {Folded, Succeeded, Settled} \<longrightarrow> \<not> isLoading (snd ps)) \<and>
                  (fst ps = Failed \<longrightarrow>
                     isLoading (snd ps) =
                       (if isl (snd (onMutate cfg0 ''t1'' ''u1'' hi s0)) then isLoading s0
                        else isl (mutationFn (Response False (Some hel))))))
     (sendMessage cfg0 ''t1'' ''u1'' (Response False (Some hel)) hi s0)"
  using busy_by_phase [of cfg0 "''t1''" "''u1''" hi s0 "Response False (Some hel)"]
    busy_by_phase [of cfg0 "''t1''" "''u1''" hi s0 "Response True (Some hel)"]
  by (simp add: run_defs input_defs read_loop_Cons read_loop_Done read_loop_Fails folded_fields)

text \<open>
  Claim C3, as stated, fails. When a read of the stream is rejected after the chunk
  \<^verbatim>\<open>Hel\<close> the error handler and the settle step run, but no notification is emitted:
  \<^verbatim>\<open>onError\<close> does not call \<^verbatim>\<open>toast\<close>.
\<close>

theorem stream_error_counterexample:
  "map fst (sendMessage cfg0 ''t1'' ''u1'' (Response True (Some hel_fails)) hi s0) =
     [Mutated, Folded, Failed, Settled] \<and>
   toasts (final (sendMessage cfg0 ''t1'' ''u1'' (Response True (Some hel_fails)) hi s0)) = []"
  by (simp add: run_defs input_defs read_loop_Cons read_loop_Fails folded_fields)

text \<open>
  Claim C3, amended. For every stream whose reading ends with a rejected read, the run is
  defined and ends with the failed and the settled step (after the mutated step and one
  fold per chunk delivered, unless \<^verbatim>\<open>onMutate\<close> itself threw); the input field holds the
  submitted text again, no notification is emitted at any step, the loading flag is false
  and one invalidate call has been made. Decoding raises no error: \<open>decode\<close> is total.
\<close>

theorem stream_error_handled:
  assumes "ending st = ReadFails"
  shows "(map fst (sendMessage cfg now uuid (Response True (Some st)) msg s) = [Failed, Settled] \<or>
          map fst (sendMessage cfg now uuid (Response True (Some st)) msg s) =
            Mutated # replicate (length (chunks st)) Folded @ [Failed, Settled]) \<and>
         message (final (sendMessage cfg now uuid (Response True (Some st)) msg s)) = msg \<and>
         list_all (\<lambda>ps. toasts (snd ps) = toasts s)
           (sendMessage cfg now uuid (Response True (Some st)) msg s) \<and>
         isLoading (final (sendMessage cfg now uuid (Response True (Some st)) msg s)) = False \<and>
         invalidations (final (sendMessage cfg now uuid (Response True (Some st)) msg s)) =
           invalidations s @ [FileInput (fileId cfg)]"
proof -
  let ?s0 = "fst (onMutate cfg now uuid msg s)"
  let ?s1 = "?s0\<lparr>isLoading := False\<rparr>"
  let ?tr = "fst (read_loop (messages_key cfg) [] ?s1 (chunks st) (ending st))"
  note om = onMutate_ui [of cfg now uuid msg s]
  show ?thesis
  proof (cases "snd (onMutate cfg now uuid msg s)")
    case (Inl e)
    show ?thesis
      using om
      by (simp add: sendMessage_throw [OF Inl] final_def fail_and_settle_def onError_fields
          onSettled_fields)
  next
    case (Inr ctx)
    note eq = sendMessage_stream_fails [OF Inr mutationFn_ok assms refl refl]
    have a: "list_all (\<lambda>s'. toasts s' = toasts s) ?tr"
      using read_loop_props [of ?s1 "messages_key cfg" "[]" "chunks st" "ending st"] om
      by (simp add: list_all_iff same_ui_def)
    have b: "toasts (last (?s1 # ?tr)) = toasts s \<and> backupMessage (last (?s1 # ?tr)) = msg \<and>
             invalidations (last (?s1 # ?tr)) = invalidations s"
      using loop_last_ui [of ?s1 "messages_key cfg" "[]" "chunks st" "ending st"] om
      by (simp add: same_ui_def)
    have c: "length ?tr = length (chunks st)"
      using read_loop_props [of ?s1 "messages_key cfg" "[]" "chunks st" "ending st"] assms
      by simp
    have d: "map fst (map (Pair Folded) ?tr) = replicate (length (chunks st)) Folded"
      unfolding c [symmetric] by (simp add: map_replicate_const comp_def)
    show ?thesis
      using a b d om
      by (simp add: eq final_def fail_and_settle_def onError_fields onSettled_fields
          list_all_iff)
  qed
qed

theorem stream_error_handled_witness:
  "ending hel_fails = ReadFails \<and>
   map fst (sendMessage cfg0 ''t1'' ''u1'' (Response True (Some hel_fails)) hi s0) =
     Mutated # replicate (length (chunks hel_fails)) Folded @ [Failed, Settled] \<and>
   message (final (sendMessage cfg0 ''t1'' ''u1'' (Response True (Some hel_fails)) hi s0)) = hi \<and>
   isLoading (final (sendMessage cfg0 ''t1'' ''u1'' (Response True (Some hel_fails)) hi s0)) = False"
proof -
  have h: "ending hel_fails = ReadFails" by (simp add: hel_fails_def)
  show ?thesis
    using h stream_error_handled [OF h, of cfg0 "''t1''" "''u1''" hi s0]
    by (simp add: run_defs input_defs read_loop_Cons read_loop_Fails folded_fields)
qed

text \<open>
  Claim C4, as stated, fails. An ok response whose body is \<^verbatim>\<open>null\<close> is a value of the
  request, so \<^verbatim>\<open>onSuccess\<close> runs and \<^verbatim>\<open>onError\<close> does not: no failed step occurs, the input
  field stays empty, nothing is written by \<^verbatim>\<open>setData\<close> and the own-message record stays in
  the entry. The rollback runs zero times.
\<close>

theorem no_body_counterexample:
  "map fst (sendMessage cfg0 ''t1'' ''u1'' (Response True None) hi s0) =
     [Mutated, Succeeded, Settled] \<and>
   message (final (sendMessage cfg0 ''t1'' ''u1'' (Response True None) hi s0)) = [] \<and>
   queryData (final (sendMessage cfg0 ''t1'' ''u1'' (Response True None) hi s0)) (FileInput ''f1'') = None \<and>
   map_option (flatten (heap (final (sendMessage cfg0 ''t1'' ''u1'' (Response True None) hi s0))))
     (infiniteData (final (sendMessage cfg0 ''t1'' ''u1'' (Response True None) hi s0)) (messages_key cfg0)) =
     Some [own, earlier]"
  by (simp add: run_defs input_defs flatten_def)

text \<open>
  Claim C4, amended. When the request settles with an ok response whose body is \<^verbatim>\<open>null\<close>
  (so \<^verbatim>\<open>onMutate\<close> had returned and the request did not fail), the run consists of the
  mutated, the succeeded and the settled step; exactly one notification is emitted, at the
  succeeded step; the loading flag is cleared; no rollback runs: the input field stays
  empty, \<^verbatim>\<open>setData\<close> writes nothing and the entry and the pages are those left by the
  optimistic insert; the settled step makes one invalidate call, which covers the entry.
  (A response that is not ok fails the request and takes the path of the error handler,
  which this claim does not describe.)
\<close>

theorem no_body_notifies_once:
  assumes "snd (onMutate cfg now uuid msg s) = Inr ctx"
  shows "map fst (sendMessage cfg now uuid (Response True None) msg s) =
           [Mutated, Succeeded, Settled] \<and>
         map (toasts \<circ> snd) (sendMessage cfg now uuid (Response True None) msg s) =
           [toasts s, toasts s @ [problem_toast], toasts s @ [problem_toast]] \<and>
         isLoading (final (sendMessage cfg now uuid (Response True None) msg s)) = False \<and>
         message (final (sendMessage cfg now uuid (Response True None) msg s)) = [] \<and>
         queryData (final (sendMessage cfg now uuid (Response True None) msg s)) = queryData s \<and>
         infiniteData (final (sendMessage cfg now uuid (Response True None) msg s)) =
           infiniteData (fst (onMutate cfg now uuid msg s)) \<and>
         heap (final (sendMessage cfg now uuid (Response True None) msg s)) =
           heap (fst (onMutate cfg now uuid msg s)) \<and>
         map (invalidations \<circ> snd) (sendMessage cfg now uuid (Response True None) msg s) =
           [invalidations s, invalidations s, invalidations s @ [FileInput (fileId cfg)]] \<and>
         covers (FileInput (fileId cfg)) (messages_key cfg)"
  using onMutate_ui [of cfg now uuid msg s]
  by (simp add: sendMessage_no_body [OF assms mutationFn_ok] final_def onSettled_fields
      messages_key_def)

theorem no_body_notifies_once_witness:
  "snd (onMutate cfg0 ''t1'' ''u1'' hi s0) = Inr [] \<and>
   map fst (sendMessage cfg0 ''t1'' ''u1'' (Response True None) hi s0) =
     [Mutated, Succeeded, Settled] \<and>
   toasts (final (sendMessage cfg0 ''t1'' ''u1'' (Response True None) hi s0)) = [problem_toast] \<and>
   invalidations (final (sendMessage cfg0 ''t1'' ''u1'' (Response True None) hi s0)) =
     [FileInput ''f1'']"
proof -
  have h: "snd (onMutate cfg0 ''t1'' ''u1'' hi s0) = Inr []"
    by (simp add: run_defs input_defs)
  show ?thesis
    using h no_body_notifies_once [OF h]
    by (simp add: run_defs input_defs)
qed

text \<open>
  Claim C1, evaluated on the code. The claim asks that a failed mutation leaves the entry
  with exactly the records it had at the start, and the input field with the submitted
  text. The input field is restored. The entry is not: \<^verbatim>\<open>onMutate\<close> reads the snapshot with
  \<^verbatim>\<open>getInfiniteData()\<close>, without the input under which the entry is stored, and \<^verbatim>\<open>onError\<close>
  writes it with \<^verbatim>\<open>setData({ fileId }, ...)\<close>, which is another key. When the request is
  refused the own-message record is still in the entry after the run and the value written
  by the rollback is the empty list; when a read of the stream fails after \<^verbatim>\<open>Hel\<close> the
  partial reply is still in the entry as well. Moreover the snapshot is flattened after the
  updater has written into the first page object: were the same entry stored under the key
  that \<^verbatim>\<open>getInfiniteData()\<close> reads, the snapshot would already hold the own-message record.
\<close>

theorem rollback_misses_entry:
  "flatten (heap s0) e0 = [earlier] \<and> infiniteData s0 (messages_key cfg0) = Some e0 \<and>
   map fst (sendMessage cfg0 ''t1'' ''u1'' (Response False None) hi s0) =
     [Mutated, Failed, Settled] \<and>
   message (final (sendMessage cfg0 ''t1'' ''u1'' (Response False None) hi s0)) = hi \<and>
   map_option (flatten (heap (final (sendMessage cfg0 ''t1'' ''u1'' (Response False None) hi s0))))
     (infiniteData (final (sendMessage cfg0 ''t1'' ''u1'' (Response False None) hi s0)) (messages_key cfg0)) =
     Some [own, earlier] \<and>
   queryData (final (sendMessage cfg0 ''t1'' ''u1'' (Response False None) hi s0)) (FileInput ''f1'') =
     Some [] \<and>
   map fst (sendMessage cfg0 ''t1'' ''u1'' (Response True (Some hel_fails)) hi s0) =
     [Mutated, Folded, Failed, Settled] \<and>
   map_option (map msg_id \<circ> flatten (heap (final (sendMessage cfg0 ''t1'' ''u1'' (Response True (Some hel_fails)) hi s0))))
     (infiniteData (final (sendMessage cfg0 ''t1'' ''u1'' (Response True (Some hel_fails)) hi s0)) (messages_key cfg0)) =
     Some [''ai-response'', ''u1'', ''m1''] \<and>
   pending_texts (messages_key cfg0) (final (sendMessage cfg0 ''t1'' ''u1'' (Response True (Some hel_fails)) hi s0)) =
     [[0x48, 0x65, 0x6C]] \<and>
   snd (onMutate cfg0 ''t1'' ''u1'' hi (s0\<lparr>infiniteData := (infiniteData s0)(NoInput \<mapsto> e0)\<rparr>)) =
     Inr [own, earlier]"
  by (simp add: run_defs input_defs fold_defs read_loop_Cons read_loop_Fails decode_hel)

text \<open>
  Claim C2, as stated, fails. When no entry is stored for the fingerprint at submit time,
  the updater of \<^verbatim>\<open>onMutate\<close> returns the empty entry: after the optimistic phase the entry
  has no page, hence no record at position 0.
\<close>

theorem optimistic_absent_counterexample:
  "infiniteData s_empty (messages_key cfg0) = None \<and>
   infiniteData (fst (onMutate cfg0 ''t1'' ''u1'' hi s_empty)) (messages_key cfg0) =
     Some \<lparr>pages = [], pageParams = []\<rparr>"
  by (simp add: run_defs input_defs)

text \<open>
  Claim C2, amended. Whatever the response will be, the first step of the run is the state
  left by \<^verbatim>\<open>onMutate\<close>. When the entry of the fingerprint is present with at least one page,
  that state has the same pages, and the first page holds at position 0 the new record with
  the submitted text and the own-message flag set, in front of its former records. When
  the entry is absent, that state holds the empty entry.
\<close>

theorem optimistic_visible:
  "(infiniteData s (messages_key cfg) = Some e \<and> pages e = a # rest \<longrightarrow>
      hd (sendMessage cfg now uuid resp msg s) = (Mutated, fst (onMutate cfg now uuid msg s)) \<and>
      map_option pages (infiniteData (fst (onMutate cfg now uuid msg s)) (messages_key cfg)) =
        Some (a # rest) \<and>
      messages (objects (heap (fst (onMutate cfg now uuid msg s))) a) =
        \<lparr>createdAt = now, msg_id = uuid, msg_text = msg, isUserMessage = True\<rparr> #
        messages (objects (heap s) a)) \<and>
   (infiniteData s (messages_key cfg) = None \<longrightarrow>
      hd (sendMessage cfg now uuid resp msg s) = (Mutated, fst (onMutate cfg now uuid msg s)) \<and>
      infiniteData (fst (onMutate cfg now uuid msg s)) (messages_key cfg) =
        Some \<lparr>pages = [], pageParams = []\<rparr>)"
proof (intro conjI impI)
  assume a: "infiniteData s (messages_key cfg) = Some e \<and> pages e = a # rest"
  note eq = onMutate_present [of s cfg e a rest now uuid msg]
  from a eq show "hd (sendMessage cfg now uuid resp msg s) = (Mutated, fst (onMutate cfg now uuid msg s))"
    by (intro sendMessage_hd) simp
  from a eq show "map_option pages (infiniteData (fst (onMutate cfg now uuid msg s)) (messages_key cfg)) =
        Some (a # rest)" by simp
  from a eq show "messages (objects (heap (fst (onMutate cfg now uuid msg s))) a) =
        \<lparr>createdAt = now, msg_id = uuid, msg_text = msg, isUserMessage = True\<rparr> #
        messages (objects (heap s) a)" by simp
next
  assume n: "infiniteData s (messages_key cfg) = None"
  note eq = onMutate_absent [of s cfg now uuid msg]
  from n eq show "hd (sendMessage cfg now uuid resp msg s) = (Mutated, fst (onMutate cfg now uuid msg s))"
    by (intro sendMessage_hd) simp
  from n eq show "infiniteData (fst (onMutate cfg now uuid msg s)) (messages_key cfg) =
        Some \<lparr>pages = [], pageParams = []\<rparr>" by simp
qed

theorem optimistic_visible_witness:
  "(infiniteData s0 (messages_key cfg0) = Some e0 \<and> pages e0 = 0 # []) \<and>
   hd (messages (objects (heap (fst (onMutate cfg0 ''t1'' ''u1'' hi s0))) 0)) = own \<and>
   infiniteData s_empty (messages_key cfg0) = None \<and>
   infiniteData (fst (onMutate cfg0 ''t1'' ''u1'' hi s_empty)) (messages_key cfg0) =
     Some \<lparr>pages = [], pageParams = []\<rparr>"
proof -
  have h1: "infiniteData s0 (messages_key cfg0) = Some e0 \<and> pages e0 = 0 # []"
    by (simp add: input_defs messages_key_def)
  have h2: "infiniteData s_empty (messages_key cfg0) = None"
    by (simp add: input_defs messages_key_def)
  from h1 h2
    optimistic_visible [of s0 cfg0 e0 0 "[]" "''t1''" "''u1''" "Response True None" hi]
    optimistic_visible [of s_empty cfg0 e0 0 "[]" "''t1''" "''u1''" "Response True None" hi]
  show ?thesis by (simp add: own_def)
qed

text \<open>
  Claim C5, evaluated on the code. The claim asks every updater to leave the entry it is
  given untouched and to be defined on every entry. The updater of the read loop is
  (\<open>stream_update_pure\<close>, and \<open>stream_update\<close> returns no error). The updater of \<^verbatim>\<open>onMutate\<close>
  is not: it assigns to the \<^verbatim>\<open>messages\<close> field of the first page object of the entry it is
  given, so the records of that same entry differ before and after the call; and on the
  entry with no page it throws.
\<close>

theorem optimistic_update_impure:
  "optimistic_update ''t1'' ''u1'' hi h0 (Some e0) =
     Inr (h0\<lparr>objects := (objects h0)(0 := \<lparr>messages = [own, earlier], nextCursor = None\<rparr>)\<rparr>, e0) \<and>
   flatten h0 e0 = [earlier] \<and>
   flatten (h0\<lparr>objects := (objects h0)(0 := \<lparr>messages = [own, earlier], nextCursor = None\<rparr>)\<rparr>) e0 =
     [own, earlier] \<and>
   optimistic_update ''t1'' ''u1'' hi h0 (Some \<lparr>pages = [], pageParams = []\<rparr>) = Inl TypeError"
  by (simp add: optimistic_update_def input_defs flatten_def)

text \<open>
  Claim C6, evaluated on the code. The claim asks the text of the pending reply to be the
  concatenation of the increments, the same however the bytes are cut into chunks. The
  text is the concatenation of the decoded chunks (\<open>reply_is_concat_of_decoded_chunks\<close>),
  but each chunk is decoded on its own, by a call of \<^verbatim>\<open>decode\<close> without the \<^verbatim>\<open>stream\<close>
  option: the two bytes of U+00E9 give that character when they arrive in one chunk and
  two replacement characters when they arrive in two chunks with the same bytes in total.
\<close>

theorem split_changes_text:
  "pending_texts (messages_key cfg0)
     (final (sendMessage cfg0 ''t1'' ''u1'' (Response True (Some e_acute_whole)) hi s0)) = [[0xE9]] \<and>
   pending_texts (messages_key cfg0)
     (final (sendMessage cfg0 ''t1'' ''u1'' (Response True (Some e_acute_split)) hi s0)) = [[0xFFFD, 0xFFFD]] \<and>
   concat (map snd (chunks e_acute_split)) = concat (map snd (chunks e_acute_whole))"
  by (simp add: run_defs input_defs fold_defs e_acute_whole_def e_acute_split_def
      read_loop_Cons read_loop_Done decode_e_acute)




text \<open>
  Claim C8. Take a state in which the pages of the entry are separate allocated objects and
  in which at most one record of the entry carries the reserved identifier, none of them
  outside the first page; the identifier generated for the own-message record is not the
  reserved one. Then the same holds of the entry at every step of the run: after the
  optimistic insert, after every fold of the stream, and at the terminal and settled steps.
\<close>

theorem single_pending_record:
  assumes wf: "pages_wf (messages_key cfg) s" and ok: "pending_ok (messages_key cfg) s"
    and u: "uuid \<noteq> ''ai-response''"
  shows "list_all (\<lambda>ps. pending_ok (messages_key cfg) (snd ps))
           (sendMessage cfg now uuid resp msg s)"
proof -
  let ?k = "messages_key cfg"
  let ?s0 = "fst (onMutate cfg now uuid msg s)"
  let ?s1 = "?s0\<lparr>isLoading := False\<rparr>"
  from onMutate_inv [OF wf ok u, of now msg]
  have i0: "pages_wf ?k ?s0" "pending_ok ?k ?s0" by simp_all
  then have i1: "pages_wf ?k ?s1" "pending_ok ?k ?s1"
    by (simp_all add: inv_cong [of ?s1 ?s0])
  have err: "pending_ok ?k (onError cfg c s') = pending_ok ?k s'" for c s'
    by (simp add: inv_cong [of "onError cfg c s'" s'] onError_fields)
  have setl: "pending_ok ?k (onSettled cfg s') = pending_ok ?k s'" for s'
    by (simp add: inv_cong [of "onSettled cfg s'" s'] onSettled_fields)
  show ?thesis
  proof (cases rule: sendMessage_cases [where cfg = cfg and now = now and uuid = uuid
        and msg = msg and s = s and resp = resp])
    case (throw e)
    show ?thesis
      using i0 by (simp add: sendMessage_throw [OF throw] fail_and_settle_def err setl)
  next
    case (request_fails ctx e)
    show ?thesis
      using i0
      by (simp add: sendMessage_request_fails [OF request_fails] fail_and_settle_def err setl)
  next
    case (no_body ctx)
    have "pending_ok ?k (?s0\<lparr>isLoading := False, toasts := toasts ?s0 @ [problem_toast]\<rparr>)"
      using i0
      by (simp add: inv_cong [of "?s0\<lparr>isLoading := False, toasts := toasts ?s0 @ [problem_toast]\<rparr>" ?s0])
    with i0 show ?thesis
      by (simp add: sendMessage_no_body [OF no_body] setl)
  next
    case (stream_done ctx st t)
    let ?tr = "fst (read_loop ?k [] ?s1 (chunks st) (ending st))"
    have a: "list_all (\<lambda>s'. pending_ok ?k s') ?tr"
      using read_loop_props [of ?s1 ?k "[]" "chunks st" "ending st"] i1
      by (simp add: list_all_iff)
    then have b: "pending_ok ?k (last (?s1 # ?tr))"
      using i1 by (cases "?tr = []") (auto simp: list_all_iff)
    show ?thesis
      using a b i0
      by (simp add: sendMessage_stream_done [OF stream_done refl refl] setl list_all_iff)
  next
    case (stream_fails ctx st)
    let ?tr = "fst (read_loop ?k [] ?s1 (chunks st) (ending st))"
    have a: "list_all (\<lambda>s'. pending_ok ?k s') ?tr"
      using read_loop_props [of ?s1 ?k "[]" "chunks st" "ending st"] i1
      by (simp add: list_all_iff)
    then have b: "pending_ok ?k (last (?s1 # ?tr))"
      using i1 by (cases "?tr = []") (auto simp: list_all_iff)
    show ?thesis
      using a b i0
      by (simp add: sendMessage_stream_fails [OF stream_fails refl refl] fail_and_settle_def
          err setl list_all_iff)
  qed
qed

theorem single_pending_record_witness:
  "pages_wf (messages_key cfg0) s0 \<and> pending_ok (messages_key cfg0) s0 \<and>
   ''u1'' \<noteq> ''ai-response'' \<and>
   list_all (\<lambda>ps. pending_ok (messages_key cfg0) (snd ps))
     (sendMessage cfg0 ''t1'' ''u1'' (Response True (Some hel)) hi s0) \<and>
   pending_texts (messages_key cfg0)
     (final (sendMessage cfg0 ''t1'' ''u1'' (Response True (Some hel)) hi s0)) = [[0x48, 0x65, 0x6C]]"
proof -
  have h1: "pages_wf (messages_key cfg0) s0"
    by (simp add: pages_wf_def entry_ok_def input_defs messages_key_def)
  have h2: "pending_ok (messages_key cfg0) s0"
    by (simp add: pending_ok_def single_pending_def flatten_def is_ai_def input_defs
        messages_key_def)
  have h3: "''u1'' \<noteq> ''ai-response''" by simp
  have t: "pending_texts (messages_key cfg0)
     (final (sendMessage cfg0 ''t1'' ''u1'' (Response True (Some hel)) hi s0)) = [[0x48, 0x65, 0x6C]]"
    by (simp add: run_defs input_defs fold_defs read_loop_Cons read_loop_Done decode_hel decode_Nil)
  from h1 h2 h3 t single_pending_record [OF h1 h2 h3, of "''t1''" "Response True (Some hel)" hi]
  show ?thesis by simp
qed

end
